theory Spec2Isabelle
  imports Main "HOL-Library.Word" "HOL-Library.Multiset" "HOL-Library.Sublist"
begin

section \<open>Embedded Huffman coder: huffman.c, huffman\_vlad.c, huffman\_t2\_clock.c\<close>

text \<open>
  The three C files are variants of one encoder. Functions that occur in more than one
  file with different bodies carry the file as a suffix (\<open>_vlad\<close>, \<open>_t2\<close>, \<open>_huffman\<close>);
  functions whose bodies agree are embedded once.

  Conventions of the embedding.
  \<^item> A \<open>char\<close> of the source is a \<open>char\<close> (one byte). The cast \<open>(int)c\<close> used as an array
    index is \<open>idx c\<close>, the byte value; this is C's value for 7-bit text and for targets
    whose plain \<open>char\<close> is unsigned (the ARM target named in huffman\_t2\_clock.c).
  \<^item> An \<open>int\<close> that is a size, a position or a loop counter is a \<open>nat\<close>; an
    \<open>unsigned\<close> that can wrap keeps the wrap-around written out. The parameter
    \<open>size\<close> of the source is written \<open>sz\<close>, and \<open>length\<close> is written \<open>len\<close>.
  \<^item> An input array is the list of its elements, read with \<open>!\<close>. A position at or beyond
    the length of the list is outside the array: C leaves such a read undefined and HOL
    leaves its value unspecified, so the theorems about runs that read positions
    \<open>0 .. size - 1\<close> assume that the array has that many elements.
  \<^item> A \<open>char\<close> array holding a C string is either its contents before the first NUL
    (a \<open>string\<close>) or, where stale cells matter, a function from positions to cells.
  \<^item> A table indexed by symbol (\<open>freq\<close>, \<open>codes\<close>) is a function from the index to the
    cell; a row of \<open>codes\<close> is the C string stored in it.
\<close>

type_synonym u32 = "32 word"
type_synonym u8 = "8 word"

definition NUL :: char where
  "NUL = CHR 0x00"

definition idx :: "char \<Rightarrow> nat" where
  "idx c = of_char c"

subsection \<open>Frequency counter\<close>

text \<open>\<open>freq[(int)data[i]]++\<close>\<close>

definition bump :: "char list \<Rightarrow> nat \<Rightarrow> (nat \<Rightarrow> int) \<Rightarrow> (nat \<Rightarrow> int)" where
  "bump data i freq = freq(idx (data ! i) := freq (idx (data ! i)) + 1)"

text \<open>huffman.c, \<open>calculateFrequency\<close>: one pass over positions \<open>0 .. size - 1\<close>.\<close>

definition calculateFrequency :: "char list \<Rightarrow> (nat \<Rightarrow> int) \<Rightarrow> nat \<Rightarrow> (nat \<Rightarrow> int)" where
  "calculateFrequency data freq sz = fold (bump data) [0..<sz] freq"

text \<open>
  huffman\_t2\_clock.c, \<open>calculateFrequencyInChunks\<close>. The outer loop advances \<open>start\<close> by
  \<open>chunkSize\<close>; with \<open>chunkSize = 0\<close> and a non-empty input it never ends, which the
  option-valued fixpoint renders as \<open>None\<close>.
\<close>

partial_function (option) chunks_from ::
  "char list \<Rightarrow> (nat \<Rightarrow> int) \<Rightarrow> nat \<Rightarrow> nat \<Rightarrow> nat \<Rightarrow> (nat \<Rightarrow> int) option" where
  "chunks_from data freq sz chunkSize start =
     (if start < sz then
        (let end = (if start + chunkSize < sz then start + chunkSize else sz)
         in chunks_from data (fold (bump data) [start..<end] freq) sz chunkSize
              (start + chunkSize))
      else Some freq)"

declare chunks_from.simps [code]

definition calculateFrequencyInChunks ::
  "char list \<Rightarrow> (nat \<Rightarrow> int) \<Rightarrow> nat \<Rightarrow> nat \<Rightarrow> (nat \<Rightarrow> int) option" where
  "calculateFrequencyInChunks data freq sz chunkSize =
     chunks_from data freq sz chunkSize 0"

subsection \<open>Nodes and the priority queue\<close>

text \<open>
  The three files share the queue; they differ in the comparison of \<open>minHeapify\<close> and in
  the loop test of \<open>buildHuffmanTree\<close>, so these functions take the file as a parameter.

  A pointer to a \<open>MinHeapNode\<close> is modelled by the node it points to: a node is written by
  \<open>newNode\<close> and by the assignments to \<open>top->left\<close> and \<open>top->right\<close> that follow its
  creation, before any other pointer to it exists, and never afterwards. \<open>NULL\<close> children
  are \<open>None\<close>. The nodes come from the static array \<open>nodes[MAX_CHAR]\<close> through the counter
  \<open>nodeIndex\<close>, which no function resets; the counter is threaded through the functions
  that call \<open>newNode\<close>, and a call that finds no free cell writes outside the array.

  The source has no error results. A \<open>fault\<close> marks the point where a run leaves the
  defined behaviour of C: an access outside an array, or the declaration of an array of
  length zero. Nothing is known about the program from there on; a fault is not an error
  that the program reports. The queue never holds more nodes than \<open>newNode\<close> has handed
  out, so its positions \<open>0 .. size - 1\<close> are inside \<open>array[MAX_CHAR]\<close> whenever no fault has
  occurred. \<open>MAX_TREE_HT\<close> characters per code row and the size of \<open>compressed\<close> are not
  part of the model.

  \<open>size\<close> of \<open>struct MinHeap\<close> is \<open>unsigned\<close>; it is a \<open>nat\<close> below \<open>2^32\<close> with the wrap-around
  of \<open>size - 1\<close> and \<open>++size\<close> written out in \<open>u32_dec\<close> and \<open>u32_inc\<close>, and \<open>to_int\<close> is the
  conversion \<open>(int)size\<close>. \<open>c_div\<close> is C's division by a positive divisor, which
  truncates towards zero. The
  cells of \<open>array\<close> hold nodes; cells that were never assigned hold whatever the memory
  held, which is the parameter \<open>mem\<close> of \<open>createAndBuildMinHeap\<close>.
\<close>

datatype variant = Huffman | Vlad | T2Clock

datatype fault = Outside_array | Zero_length_array

text \<open>\<open>#define MAX_CHAR\<close>: 256 in huffman.c and huffman\_vlad.c, 128 in huffman\_t2\_clock.c.\<close>

definition MAX_CHAR :: "variant \<Rightarrow> nat" where
  "MAX_CHAR v = (case v of T2Clock \<Rightarrow> 128 | _ \<Rightarrow> 256)"

text \<open>\<open>struct MinHeapNode\<close>: \<open>data\<close>, \<open>freq\<close>, \<open>left\<close>, \<open>right\<close>.\<close>

datatype MinHeapNode =
  Node (data_of: char) (freq_of: u32) (left_of: "MinHeapNode option") (right_of: "MinHeapNode option")

text \<open>\<open>struct MinHeap\<close>: \<open>size\<close> (here \<open>hsize\<close>), \<open>capacity\<close>, \<open>array\<close>.\<close>

record MinHeap =
  hsize :: nat
  capacity :: nat
  array :: "nat \<Rightarrow> MinHeapNode"

text \<open>Unsigned \<open>n - 1\<close> and \<open>n + 1\<close> modulo \<open>2^32\<close>, and the conversion of an unsigned value to \<open>int\<close>.\<close>

definition u32_dec :: "nat \<Rightarrow> nat" where
  "u32_dec n = (if n = 0 then nat 4294967295 else n - 1)"

definition u32_inc :: "nat \<Rightarrow> nat" where
  "u32_inc n = (if int n = 4294967295 then 0 else n + 1)"

definition to_int :: "nat \<Rightarrow> int" where
  "to_int n = (if int n < 2147483648 then int n else int n - 4294967296)"

definition c_div :: "int \<Rightarrow> int \<Rightarrow> int" where
  "c_div a b = (if 0 \<le> a then a div b else - ((- a) div b))"

text \<open>
  \<open>newNode\<close>: \<open>temp = &nodes[nodeIndex++]\<close>, then the four fields are written. There is no
  bound test; with \<open>nodeIndex\<close> at \<open>MAX_CHAR\<close> or beyond the writes are outside \<open>nodes\<close>. The
  result is the node and the new value of \<open>nodeIndex\<close>.
\<close>

definition newNode :: "variant \<Rightarrow> nat \<Rightarrow> char \<Rightarrow> u32 \<Rightarrow> fault + (MinHeapNode \<times> nat)" where
  "newNode v nodeIndex d f =
     (if nodeIndex < MAX_CHAR v then Inr (Node d f None None, nodeIndex + 1)
      else Inl Outside_array)"

text \<open>\<open>createMinHeap\<close>: sets \<open>size\<close> and \<open>capacity\<close>; the cells of \<open>array\<close> are left as they are.\<close>

definition createMinHeap :: "MinHeap \<Rightarrow> nat \<Rightarrow> MinHeap" where
  "createMinHeap minHeap cap = minHeap\<lparr>hsize := 0, capacity := cap\<rparr>"

text \<open>\<open>swapMinHeapNode(&array[a], &array[b])\<close>.\<close>

definition swapMinHeapNode :: "(nat \<Rightarrow> MinHeapNode) \<Rightarrow> nat \<Rightarrow> nat \<Rightarrow> (nat \<Rightarrow> MinHeapNode)" where
  "swapMinHeapNode arr a b = arr(a := arr b, b := arr a)"

text \<open>
  \<open>minHeapify\<close>. The bound test is \<open>(unsigned int)left < size\<close> in huffman.c and
  \<open>left < (int)size\<close> in the other two files. The comparison of two nodes is by \<open>freq\<close>, and
  in huffman.c by \<open>data\<close> when the frequencies are equal. \<open>pick_smallest\<close> is the part of the
  body that computes \<open>smallest\<close>; the second test compares with the node chosen by the first.
\<close>

definition below_size :: "variant \<Rightarrow> nat \<Rightarrow> nat \<Rightarrow> bool" where
  "below_size v i n = (case v of Huffman \<Rightarrow> i < n | _ \<Rightarrow> int i < to_int n)"

definition node_less :: "variant \<Rightarrow> MinHeapNode \<Rightarrow> MinHeapNode \<Rightarrow> bool" where
  "node_less v a b =
     (case v of
        Huffman \<Rightarrow> freq_of a < freq_of b \<or> (freq_of a = freq_of b \<and> idx (data_of a) < idx (data_of b))
      | _ \<Rightarrow> freq_of a < freq_of b)"

definition pick_smallest :: "variant \<Rightarrow> MinHeap \<Rightarrow> nat \<Rightarrow> nat" where
  "pick_smallest v minHeap i =
     (let smallest = i;
          l = 2 * i + 1;
          r = 2 * i + 2;
          smallest1 = (if below_size v l (hsize minHeap) \<and>
                          node_less v (array minHeap l) (array minHeap smallest)
                       then l else smallest);
          smallest2 = (if below_size v r (hsize minHeap) \<and>
                          node_less v (array minHeap r) (array minHeap smallest1)
                       then r else smallest1)
      in smallest2)"

function minHeapify :: "variant \<Rightarrow> MinHeap \<Rightarrow> nat \<Rightarrow> MinHeap" where
  "minHeapify v minHeap i =
     (let smallest = pick_smallest v minHeap i
      in if smallest \<noteq> i
         then minHeapify v (minHeap\<lparr>array := swapMinHeapNode (array minHeap) smallest i\<rparr>) smallest
         else minHeap)"
  by pat_completeness auto
termination
proof (relation "measure (\<lambda>(v, h, i). hsize h - i)")
  show "wf (measure (\<lambda>(v, h, i). hsize h - i))" by simp
next
  fix v :: variant and minHeap :: MinHeap and i x
  assume x: "x = pick_smallest v minHeap i" "x \<noteq> i"
  have less: "below_size v j n \<Longrightarrow> j < n" for j n
    by (cases v) (auto simp: below_size_def to_int_def split: if_splits)
  from x have "x = 2 * i + 1 \<or> x = 2 * i + 2" and "below_size v x (hsize minHeap)"
    by (auto simp: pick_smallest_def Let_def split: if_splits)
  then have "i < x" and "x < hsize minHeap"
    using less by auto
  then have "hsize minHeap - x < hsize minHeap - i"
    by arith
  then show "((v, minHeap\<lparr>array := swapMinHeapNode (array minHeap) x i\<rparr>, x), (v, minHeap, i))
               \<in> measure (\<lambda>(v, h, i). hsize h - i)"
    by simp
qed

text \<open>
  \<open>extractMin\<close>: returns \<open>array[0]\<close>, moves \<open>array[size - 1]\<close> to slot 0, decrements \<open>size\<close> and
  sifts down from 0. There is no test for \<open>size = 0\<close>: the position \<open>size - 1\<close> is then
  \<open>UINT_MAX\<close>, and for \<open>size\<close> above \<open>MAX_CHAR\<close> it is beyond the last cell; in both cases the
  read is outside \<open>array\<close>.
\<close>

definition extractMin :: "variant \<Rightarrow> MinHeap \<Rightarrow> fault + (MinHeapNode \<times> MinHeap)" where
  "extractMin v minHeap =
     (if hsize minHeap = 0 \<or> MAX_CHAR v < hsize minHeap then Inl Outside_array
      else
        (let temp = array minHeap 0;
             h1 = minHeap\<lparr>array := (array minHeap)(0 := array minHeap (u32_dec (hsize minHeap)))\<rparr>;
             h2 = h1\<lparr>hsize := u32_dec (hsize h1)\<rparr>
         in Inr (temp, minHeapify v h2 0)))"

text \<open>
  \<open>insertMinHeap\<close> (the same in the three files): \<open>++size\<close>, then from \<open>i = size - 1\<close> parents
  of larger \<open>freq\<close> move down one level, and the node is stored where the loop stops. Only
  \<open>freq\<close> is compared. \<open>sift_up\<close> is the \<open>while\<close> loop; \<open>i\<close> is not negative for sizes that fit
  an \<open>int\<close>.
\<close>

function sift_up :: "MinHeapNode \<Rightarrow> (nat \<Rightarrow> MinHeapNode) \<Rightarrow> nat \<Rightarrow> (nat \<Rightarrow> MinHeapNode) \<times> nat" where
  "sift_up minHeapNode arr i =
     (if i \<noteq> 0 \<and> freq_of minHeapNode < freq_of (arr ((i - 1) div 2))
      then sift_up minHeapNode (arr(i := arr ((i - 1) div 2))) ((i - 1) div 2)
      else (arr, i))"
  by pat_completeness auto
termination
  by (relation "measure (\<lambda>(n, arr, i). i)") auto

definition insertMinHeap :: "MinHeap \<Rightarrow> MinHeapNode \<Rightarrow> MinHeap" where
  "insertMinHeap minHeap minHeapNode =
     (let h1 = minHeap\<lparr>hsize := u32_inc (hsize minHeap)\<rparr>;
          (arr, i) = sift_up minHeapNode (array h1) (u32_dec (hsize h1))
      in h1\<lparr>array := arr(i := minHeapNode)\<rparr>)"

text \<open>
  \<open>buildMinHeap\<close>: \<open>n = size - 1\<close> converted to \<open>int\<close>, then \<open>minHeapify\<close> for
  \<open>i = (n - 1) / 2\<close> down to 0.
\<close>

function heapify_downto_0 :: "variant \<Rightarrow> MinHeap \<Rightarrow> int \<Rightarrow> MinHeap" where
  "heapify_downto_0 v minHeap i =
     (if 0 \<le> i then heapify_downto_0 v (minHeapify v minHeap (nat i)) (i - 1) else minHeap)"
  by pat_completeness auto
termination
  by (relation "measure (\<lambda>(v, h, i). nat (i + 1))") auto

definition buildMinHeap :: "variant \<Rightarrow> MinHeap \<Rightarrow> MinHeap" where
  "buildMinHeap v minHeap =
     (let n = to_int (u32_dec (hsize minHeap))
      in heapify_downto_0 v minHeap (c_div (n - 1) 2))"

text \<open>
  \<open>createAndBuildMinHeap\<close>: one new leaf per table entry in slots \<open>0 .. size - 1\<close>; the
  \<open>int\<close> frequency becomes the \<open>unsigned\<close> field. \<open>fill_nodes\<close> is the loop
  \<open>array[i] = newNode(data[i], freq[i])\<close> over the positions given.
\<close>

fun fill_nodes ::
  "variant \<Rightarrow> char list \<Rightarrow> int list \<Rightarrow> nat list \<Rightarrow> MinHeap \<times> nat \<Rightarrow> fault + (MinHeap \<times> nat)" where
  "fill_nodes v data freq [] st = Inr st"
| "fill_nodes v data freq (i # rest) st =
     (case newNode v (snd st) (data ! i) (word_of_int (freq ! i)) of
        Inl e \<Rightarrow> Inl e
      | Inr (node, nodeIndex) \<Rightarrow>
          fill_nodes v data freq rest
            ((fst st)\<lparr>array := (array (fst st))(i := node)\<rparr>, nodeIndex))"

definition createAndBuildMinHeap ::
  "variant \<Rightarrow> MinHeap \<Rightarrow> nat \<Rightarrow> char list \<Rightarrow> int list \<Rightarrow> nat \<Rightarrow> fault + (MinHeap \<times> nat)" where
  "createAndBuildMinHeap v mem nodeIndex data freq sz =
     (case fill_nodes v data freq [0..<sz] (createMinHeap mem sz, nodeIndex) of
        Inl e \<Rightarrow> Inl e
      | Inr (h1, nodeIndex1) \<Rightarrow> Inr (buildMinHeap v (h1\<lparr>hsize := sz\<rparr>), nodeIndex1))"

text \<open>
  \<open>buildHuffmanTree\<close>: the loop runs while \<open>!isSizeOne(minHeap)\<close> in huffman.c and while
  \<open>minHeap.size > 1\<close> in the other two files; \<open>merge_two\<close> is its body. The first node
  extracted becomes the left child, and the weight of the new node is the \<open>unsigned\<close> sum
  \<open>left->freq + right->freq\<close>. The function returns \<open>extractMin\<close> of what is left. Every
  turn of the loop takes a cell of \<open>nodes\<close>, so the loop ends, with a root or with a fault.
  The state of the loop is the queue and \<open>nodeIndex\<close>; the result of \<open>buildHuffmanTree\<close> is
  the root and \<open>nodeIndex\<close> after the call.
\<close>

definition more_to_merge :: "variant \<Rightarrow> nat \<Rightarrow> bool" where
  "more_to_merge v n = (case v of Huffman \<Rightarrow> n \<noteq> 1 | _ \<Rightarrow> 1 < n)"

definition merge_two :: "variant \<Rightarrow> MinHeap \<times> nat \<Rightarrow> fault + (MinHeap \<times> nat)" where
  "merge_two v st =
     (case extractMin v (fst st) of
        Inl e \<Rightarrow> Inl e
      | Inr (l, h1) \<Rightarrow>
          (case extractMin v h1 of
             Inl e \<Rightarrow> Inl e
           | Inr (r, h2) \<Rightarrow>
               (case newNode v (snd st) (CHR ''$'') (freq_of l + freq_of r) of
                  Inl e \<Rightarrow> Inl e
                | Inr (new, nodeIndex) \<Rightarrow>
                    Inr (insertMinHeap h2 (Node (data_of new) (freq_of new) (Some l) (Some r)),
                         nodeIndex))))"

function merge_loop :: "variant \<Rightarrow> MinHeap \<times> nat \<Rightarrow> fault + (MinHeap \<times> nat)" where
  "merge_loop v st =
     (if more_to_merge v (hsize (fst st))
      then (case merge_two v st of Inl e \<Rightarrow> Inl e | Inr st' \<Rightarrow> merge_loop v st')
      else Inr st)"
  by pat_completeness auto
termination
proof (relation "measure (\<lambda>(v, st). MAX_CHAR v - snd st)")
  show "wf (measure (\<lambda>(v, st). MAX_CHAR v - snd st))" by simp
next
  fix v :: variant and st st' :: "MinHeap \<times> nat"
  assume "merge_two v st = Inr st'"
  then have "snd st < MAX_CHAR v" and "snd st' = snd st + 1"
    by (auto simp: merge_two_def newNode_def split: sum.splits if_splits prod.splits)
  then show "((v, st'), (v, st)) \<in> measure (\<lambda>(v, st). MAX_CHAR v - snd st)"
    by simp
qed

definition buildHuffmanTree ::
  "variant \<Rightarrow> MinHeap \<Rightarrow> nat \<Rightarrow> char list \<Rightarrow> int list \<Rightarrow> nat \<Rightarrow> fault + (MinHeapNode \<times> nat)" where
  "buildHuffmanTree v mem nodeIndex data freq sz =
     (case createAndBuildMinHeap v mem nodeIndex data freq sz of
        Inl e \<Rightarrow> Inl e
      | Inr st \<Rightarrow>
          (case merge_loop v st of
             Inl e \<Rightarrow> Inl e
           | Inr (minHeap, nodeIndex1) \<Rightarrow>
               (case extractMin v minHeap of
                  Inl e \<Rightarrow> Inl e
                | Inr (root, _) \<Rightarrow> Inr (root, nodeIndex1))))"

text \<open>\<open>isLeaf\<close> (huffman.c, huffman\_t2\_clock.c): both children are \<open>NULL\<close>.\<close>

definition isLeaf :: "MinHeapNode \<Rightarrow> bool" where
  "isLeaf root = (left_of root = None \<and> right_of root = None)"

text \<open>
  Vocabulary for the claims about the finished tree: the leaves from left to right, each
  with its symbol and weight; the weight of a node as a number; whether every internal
  node has two children and a weight that is the sum of theirs as numbers, that is, without
  wrap-around; the nodes held by the queue.
\<close>

definition weight :: "MinHeapNode \<Rightarrow> int" where
  "weight n = uint (freq_of n)"

fun leaves :: "MinHeapNode \<Rightarrow> (char \<times> u32) list" where
  "leaves (Node d f l r) =
     (if l = None \<and> r = None then [(d, f)]
      else (case l of None \<Rightarrow> [] | Some a \<Rightarrow> leaves a) @
           (case r of None \<Rightarrow> [] | Some b \<Rightarrow> leaves b))"

fun weights_add_up :: "MinHeapNode \<Rightarrow> bool" where
  "weights_add_up (Node d f l r) =
     (case l of
        None \<Rightarrow> r = None
      | Some a \<Rightarrow>
          (case r of
             None \<Rightarrow> False
           | Some b \<Rightarrow> uint f = weight a + weight b \<and> weights_add_up a \<and> weights_add_up b))"

text \<open>The sum of the weights of a multiset of leaves, as a number.\<close>

definition total :: "(char \<times> u32) multiset \<Rightarrow> int" where
  "total M = (\<Sum>x\<in>#M. uint (snd x))"

definition contents :: "MinHeap \<Rightarrow> MinHeapNode list" where
  "contents minHeap = map (array minHeap) [0..<hsize minHeap]"

definition forest_leaves :: "MinHeap \<Rightarrow> (char \<times> u32) multiset" where
  "forest_leaves h = (\<Sum>n\<in>#mset (contents h). mset (leaves n))"

text \<open>
  The leaves with the path from the root to each (\<open>0\<close> for left, \<open>1\<close> for right), and
  the table that results from storing \<open>code @ path\<close> in the row of each leaf in turn.
\<close>

fun paths :: "MinHeapNode \<Rightarrow> (char \<times> string) list" where
  "paths (Node d f l r) =
     (if l = None \<and> r = None then [(d, [])]
      else map (\<lambda>(s, p). (s, CHR ''0'' # p)) (case l of None \<Rightarrow> [] | Some a \<Rightarrow> paths a) @
           map (\<lambda>(s, p). (s, CHR ''1'' # p)) (case r of None \<Rightarrow> [] | Some b \<Rightarrow> paths b))"

definition record_paths :: "string \<Rightarrow> (char \<times> string) list \<Rightarrow> (nat \<Rightarrow> string) \<Rightarrow> (nat \<Rightarrow> string)" where
  "record_paths code ps codes = fold (\<lambda>(s, p) cs. cs(idx s := code @ p)) ps codes"

subsection \<open>Bit packer\<close>

text \<open>
  huffman\_vlad.c, \<open>compressInput\<close>: the loop runs until \<open>input[i]\<close> is NUL and appends
  row \<open>codes[(int)input[i]]\<close> with \<open>strcat\<close>. The list is the array the pointer refers to;
  a scan that reaches its end without meeting NUL reads outside the array, which C leaves
  undefined and the model reports as \<open>None\<close>.
\<close>

fun compressInput_vlad :: "char list \<Rightarrow> (nat \<Rightarrow> string) \<Rightarrow> string \<Rightarrow> string option" where
  "compressInput_vlad [] codes compressed = None"
| "compressInput_vlad (c # input) codes compressed =
     (if c = NUL then Some compressed
      else compressInput_vlad input codes (compressed @ codes (idx c)))"

text \<open>
  huffman\_t2\_clock.c, \<open>compressInput\<close>: positions \<open>0 .. size - 1\<close> of the input; each
  character of the row is stored at \<open>compressed[bitIndex++]\<close>. Nothing is written after
  the last bit, so cells beyond it keep what they held.
\<close>

fun store :: "(nat \<Rightarrow> char) \<Rightarrow> nat \<Rightarrow> string \<Rightarrow> (nat \<Rightarrow> char)" where
  "store buf k [] = buf"
| "store buf k (c # cs) = store (buf(k := c)) (Suc k) cs"

definition compress_step ::
  "char list \<Rightarrow> (nat \<Rightarrow> string) \<Rightarrow> nat \<Rightarrow> (nat \<Rightarrow> char) \<times> nat \<Rightarrow> (nat \<Rightarrow> char) \<times> nat" where
  "compress_step input codes i st =
     (case st of (compressed, bitIndex) \<Rightarrow>
        (store compressed bitIndex (codes (idx (input ! i))),
         bitIndex + length (codes (idx (input ! i)))))"

definition compressInput_t2 ::
  "char list \<Rightarrow> nat \<Rightarrow> (nat \<Rightarrow> string) \<Rightarrow> (nat \<Rightarrow> char) \<Rightarrow> (nat \<Rightarrow> char)" where
  "compressInput_t2 input sz codes compressed =
     fst (fold (compress_step input codes) [0..<sz] (compressed, 0))"

text \<open>The first \<open>n\<close> cells of a buffer.\<close>

definition cells :: "(nat \<Rightarrow> char) \<Rightarrow> nat \<Rightarrow> string" where
  "cells buf n = map buf [0..<n]"

text \<open>
  \<open>binary_to_char\<close> (both files): eight characters, most significant first,
  \<open>value = value * 2 + (binary[i] - '0')\<close>, returned as one byte.
\<close>

definition binary_to_char :: "string \<Rightarrow> u8" where
  "binary_to_char binary =
     word_of_int (foldl (\<lambda>v c. v * 2 + (int (idx c) - 48)) 0 (take 8 binary))"

text \<open>
  \<open>convertToAscii\<close> (both files): \<open>memset(padded_data, '0', padding)\<close> followed by
  \<open>strcpy(padded_data + padding, compressed)\<close>, then one byte per group of eight.
  The result is the pair of \<open>padded_data\<close> and the bytes handed to \<open>putchar\<close>.
\<close>

definition convertToAscii :: "string \<Rightarrow> string \<times> u8 list" where
  "convertToAscii compressed =
     (let len = length compressed;
          padded_length = ((len + 7) div 8) * 8;
          padding = padded_length - len;
          padded_data = replicate padding (CHR ''0'') @ compressed
      in (padded_data,
          map (\<lambda>k. binary_to_char (drop (8 * k) padded_data)) [0..<padded_length div 8]))"

text \<open>
  huffman\_vlad.c declares \<open>char output[padded_length / 8]\<close>, a variable length array. For
  the empty stream its length is zero, which C does not define; huffman\_t2\_clock.c uses a
  static array instead.
\<close>

definition convertToAscii_vlad :: "string \<Rightarrow> fault + (string \<times> u8 list)" where
  "convertToAscii_vlad compressed =
     (if ((length compressed + 7) div 8) * 8 div 8 = 0 then Inl Zero_length_array
      else Inr (convertToAscii compressed))"

subsection \<open>Code extractor\<close>

text \<open>
  huffman\_vlad.c, \<open>generateCodes\<close> (recursive). The buffer \<open>code\<close> and the position \<open>top\<close>
  are modelled by the string \<open>code[0 .. top - 1]\<close>, the path walked so far: each call
  writes \<open>code[top]\<close> before it descends, and a leaf ends the string at \<open>top\<close> and copies it
  to row \<open>codes[(int)root->data]\<close>.
\<close>

fun generateCodes_vlad :: "MinHeapNode \<Rightarrow> string \<Rightarrow> (nat \<Rightarrow> string) \<Rightarrow> (nat \<Rightarrow> string)" where
  "generateCodes_vlad (Node d f l r) code codes =
     (let codes1 = (case l of None \<Rightarrow> codes
                    | Some ln \<Rightarrow> generateCodes_vlad ln (code @ ''0'') codes);
          codes2 = (case r of None \<Rightarrow> codes1
                    | Some rn \<Rightarrow> generateCodes_vlad rn (code @ ''1'') codes1)
      in if l = None \<and> r = None then codes2(idx d := code) else codes2)"

text \<open>
  huffman.c, \<open>printCodes\<close>, and huffman\_t2\_clock.c, \<open>generateCodes\<close> (the same loop with an
  explicit stack). The record holds the variables of the loop. \<open>visited\<close> is indexed by
  the stack position and is set when the node at that position turns right; the source
  never clears a cell of it. A row of \<open>codes\<close> is written as \<open>arr[0 .. top - 1]\<close> followed by
  NUL, so the row becomes exactly that string. Reading the stack where no pointer was
  pushed would dereference \<open>NULL\<close>; the loop then has no result.
\<close>

record walk =
  w_stack :: "nat \<Rightarrow> MinHeapNode option"
  w_stackTop :: nat
  w_arr :: "nat \<Rightarrow> nat"
  w_top :: nat
  w_current :: "MinHeapNode option"
  w_visited :: "nat \<Rightarrow> bool"
  w_codes :: "nat \<Rightarrow> string"

text \<open>\<open>while (current != NULL) { stack[stackTop++] = current; arr[top++] = 0; current = current->left; }\<close>\<close>

fun push_left :: "MinHeapNode option \<Rightarrow> walk \<Rightarrow> walk" where
  "push_left None w = w\<lparr>w_current := None\<rparr>"
| "push_left (Some (Node d f l r)) w =
     push_left l
       (w\<lparr>w_stack := (w_stack w)(w_stackTop w := Some (Node d f l r)),
          w_stackTop := w_stackTop w + 1,
          w_arr := (w_arr w)(w_top w := 0),
          w_top := w_top w + 1\<rparr>)"

text \<open>The rest of the loop body, from \<open>current = stack[stackTop - 1]\<close> on.\<close>

definition visit :: "walk \<Rightarrow> walk option" where
  "visit w =
     (case w_stack w (w_stackTop w - 1) of
        None \<Rightarrow> None
      | Some cur \<Rightarrow>
          if right_of cur \<noteq> None \<and> \<not> w_visited w (w_stackTop w - 1)
          then Some (w\<lparr>w_visited := (w_visited w)(w_stackTop w - 1 := True),
                        w_current := right_of cur,
                        w_arr := (w_arr w)(w_top w - 1 := 1)\<rparr>)
          else
            (let w1 = w\<lparr>w_stackTop := w_stackTop w - 1, w_top := w_top w - 1\<rparr>;
                 w2 = (if isLeaf cur
                       then w1\<lparr>w_codes := (w_codes w1)
                               (idx (data_of cur) :=
                                  map (\<lambda>i. char_of (w_arr w1 i + 48)) [0..<w_top w1])\<rparr>
                       else w1)
             in Some (w2\<lparr>w_current := None\<rparr>)))"

partial_function (option) walk_loop :: "walk \<Rightarrow> walk option" where
  "walk_loop w =
     (if 0 < w_stackTop w \<or> w_current w \<noteq> None
      then Option.bind (visit (push_left (w_current w) w)) walk_loop
      else Some w)"

declare walk_loop.simps [code]

text \<open>
  huffman.c, \<open>printCodes\<close>: \<open>stack\<close>, \<open>arr\<close> and \<open>visited\<close> are locals, \<open>visited\<close> is
  zero-initialised; \<open>stack\<close> and \<open>arr\<close> are written before they are read.
\<close>

definition printCodes :: "MinHeapNode \<Rightarrow> (nat \<Rightarrow> string) \<Rightarrow> (nat \<Rightarrow> string) option" where
  "printCodes root codes =
     map_option w_codes
       (walk_loop \<lparr>w_stack = (\<lambda>_. None), w_stackTop = 0, w_arr = (\<lambda>_. 0), w_top = 0,
                   w_current = Some root, w_visited = (\<lambda>_. False), w_codes = codes\<rparr>)"

text \<open>
  huffman\_t2\_clock.c, \<open>generateCodes\<close>: \<open>visited\<close> is a static array, so the call starts
  from the cells the previous call left and returns them with the table.
\<close>

definition generateCodes_t2 ::
  "MinHeapNode \<Rightarrow> (nat \<Rightarrow> string) \<Rightarrow> (nat \<Rightarrow> bool) \<Rightarrow> ((nat \<Rightarrow> string) \<times> (nat \<Rightarrow> bool)) option" where
  "generateCodes_t2 root codes visited =
     map_option (\<lambda>w. (w_codes w, w_visited w))
       (walk_loop \<lparr>w_stack = (\<lambda>_. None), w_stackTop = 0, w_arr = (\<lambda>_. 0), w_top = 0,
                   w_current = Some root, w_visited = visited, w_codes = codes\<rparr>)"

subsection \<open>The drivers\<close>

definition EOF_CHAR :: char where
  "EOF_CHAR = CHR 0x00"

text \<open>
  The loop over \<open>i = 0 .. MAX_CHAR - 1\<close> that copies the symbols of positive count to
  \<open>uniqueData\<close> and \<open>uniqueFreq\<close>: the indices it keeps, in increasing order.
\<close>

definition present :: "variant \<Rightarrow> (nat \<Rightarrow> int) \<Rightarrow> nat list" where
  "present v freq = filter (\<lambda>i. 0 < freq i) [0..<MAX_CHAR v]"

text \<open>
  The drivers return \<open>None\<close> for a run without a defined result: a fault, or a loop that
  does not return. \<open>nodeIndex\<close> is the value of the counter when the call starts.

  huffman\_vlad.c, \<open>HuffmanCodes\<close>: all buffers are locals. \<open>compressInput\<close> is handed \<open>data\<close>
  without the size. The result is the string printed as \<open>Compressed Data\<close> and the bytes
  printed by \<open>convertToAscii\<close>.
\<close>

definition HuffmanCodes_vlad ::
  "MinHeap \<Rightarrow> nat \<Rightarrow> char list \<Rightarrow> nat \<Rightarrow> (string \<times> u8 list) option" where
  "HuffmanCodes_vlad mem nodeIndex data sz =
     (let freq = fold (bump data) [0..<sz] (\<lambda>_. 0);
          uniqueData = map char_of (present Vlad freq);
          uniqueFreq = map freq (present Vlad freq);
          uniqueSize = length (present Vlad freq)
      in case buildHuffmanTree Vlad mem nodeIndex uniqueData uniqueFreq uniqueSize of
           Inl _ \<Rightarrow> None
         | Inr (root, _) \<Rightarrow>
             (case compressInput_vlad data (generateCodes_vlad root [] (\<lambda>_. [])) [] of
                None \<Rightarrow> None
              | Some compressed \<Rightarrow>
                  (case convertToAscii_vlad compressed of
                     Inl _ \<Rightarrow> None
                   | Inr (_, output) \<Rightarrow> Some (compressed, output))))"

text \<open>
  huffman.c, \<open>HuffmanCodes\<close>: the result is the code table and the bit string printed by
  the final loop \<open>printf("%s", codes[(int)data[i]])\<close>.
\<close>

definition HuffmanCodes_huffman ::
  "MinHeap \<Rightarrow> nat \<Rightarrow> char list \<Rightarrow> nat \<Rightarrow> ((nat \<Rightarrow> string) \<times> string) option" where
  "HuffmanCodes_huffman mem nodeIndex data sz =
     (let freq = calculateFrequency data (\<lambda>_. 0) sz;
          uniqueData = map char_of (present Huffman freq);
          uniqueFreq = map freq (present Huffman freq);
          uniqueSize = length (present Huffman freq)
      in case buildHuffmanTree Huffman mem nodeIndex uniqueData uniqueFreq uniqueSize of
           Inl _ \<Rightarrow> None
         | Inr (root, _) \<Rightarrow>
             (case printCodes root (\<lambda>_. []) of
                None \<Rightarrow> None
              | Some codes \<Rightarrow>
                  Some (codes, concat (map (\<lambda>i. codes (idx (data ! i))) [0..<sz]))))"

text \<open>
  huffman\_t2\_clock.c keeps its buffers in static storage. \<open>statics\<close> holds the ones whose
  contents a call reads before it writes them: \<open>nodeIndex\<close>, \<open>codes\<close>, \<open>compressed\<close> and
  \<open>visited\<close>. (\<open>freq\<close> is cleared by \<open>memset\<close> at the start of \<open>HuffmanCodes\<close>; \<open>uniqueData\<close>,
  \<open>uniqueFreq\<close>, \<open>stack\<close>, \<open>arr\<close>, \<open>padded_data\<close> and \<open>output\<close> are written before they
  are read.) At program start all of them are zero.
\<close>

record statics =
  s_nodeIndex :: nat
  s_codes :: "nat \<Rightarrow> string"
  s_compressed :: "nat \<Rightarrow> char"
  s_visited :: "nat \<Rightarrow> bool"

definition program_start :: statics where
  "program_start =
     \<lparr>s_nodeIndex = 0, s_codes = (\<lambda>_. []), s_compressed = (\<lambda>_. NUL), s_visited = (\<lambda>_. False)\<rparr>"

text \<open>\<open>strlen\<close> on a buffer: the position of the first NUL from \<open>i\<close> on.\<close>

partial_function (option) strlen_from :: "(nat \<Rightarrow> char) \<Rightarrow> nat \<Rightarrow> nat option" where
  "strlen_from buf i = (if buf i = NUL then Some i else strlen_from buf (i + 1))"

declare strlen_from.simps [code]

text \<open>
  The loop of \<open>HuffmanCodes\<close> that appends the code of \<open>EOF_CHAR\<close>:
  \<open>compressed[strlen(compressed)] = codes[(int)EOF_CHAR][j]\<close> for each character of the row.
\<close>

fun append_row :: "(nat \<Rightarrow> char) \<Rightarrow> string \<Rightarrow> (nat \<Rightarrow> char) option" where
  "append_row compressed [] = Some compressed"
| "append_row compressed (c # row) =
     (case strlen_from compressed 0 of
        None \<Rightarrow> None
      | Some n \<Rightarrow> append_row (compressed(n := c)) row)"

text \<open>
  huffman\_t2\_clock.c, \<open>HuffmanCodes\<close>. The result is the byte sequence printed by
  \<open>convertToAscii\<close> and the static storage after the call.
\<close>

definition HuffmanCodes_t2 ::
  "MinHeap \<Rightarrow> statics \<Rightarrow> char list \<Rightarrow> nat \<Rightarrow> (u8 list \<times> statics) option" where
  "HuffmanCodes_t2 mem st data sz =
     (case calculateFrequencyInChunks data (\<lambda>_. 0) sz 1000 of
        None \<Rightarrow> None
      | Some counted \<Rightarrow>
          (let freq = counted(idx EOF_CHAR := 1);
               uniqueData = map char_of (present T2Clock freq);
               uniqueFreq = map freq (present T2Clock freq);
               uniqueSize = length (present T2Clock freq)
           in case buildHuffmanTree T2Clock mem (s_nodeIndex st) uniqueData uniqueFreq uniqueSize of
                Inl _ \<Rightarrow> None
              | Inr (root, nodeIndex) \<Rightarrow>
                  (case generateCodes_t2 root (s_codes st) (s_visited st) of
                     None \<Rightarrow> None
                   | Some (codes, visited) \<Rightarrow>
                       (case append_row (compressInput_t2 data sz codes (s_compressed st))
                               (codes (idx EOF_CHAR)) of
                          None \<Rightarrow> None
                        | Some compressed \<Rightarrow>
                            (case strlen_from compressed 0 of
                               None \<Rightarrow> None
                             | Some n \<Rightarrow>
                                 Some (snd (convertToAscii (cells compressed n)),
                                       \<lparr>s_nodeIndex = nodeIndex, s_codes = codes,
                                        s_compressed = compressed, s_visited = visited\<rparr>))))))"

text \<open>A queue memory for the examples: no node in any cell that matters.\<close>

definition blank :: MinHeap where
  "blank = \<lparr>hsize = 0, capacity = 0, array = (\<lambda>_. Node (CHR ''?'') 0 None None)\<rparr>"

section \<open>Theorems\<close>

subsection \<open>The queue keeps its nodes\<close>

declare minHeapify.simps [simp del] sift_up.simps [simp del] heapify_downto_0.simps [simp del]

lemma mset_map_swap:
  assumes "a < n" "b < n"
  shows "mset (map (f(a := f b, b := f a)) [0..<n]) = mset (map f [0..<n])"
proof -
  let ?xs = "map f [0..<n]"
  have "map (f(a := f b, b := f a)) [0..<n] = ?xs[a := ?xs ! b, b := ?xs ! a]"
    using assms by (intro nth_equalityI) (auto simp: nth_list_update)
  moreover have "mset (?xs[a := ?xs ! b, b := ?xs ! a]) = mset ?xs"
    by (rule mset_swap) (simp_all add: assms)
  ultimately show ?thesis by simp
qed

lemma mset_map_exchange:
  assumes "a < n" "b < n" "a \<noteq> b"
  shows "mset (map (f(a := x, b := y)) [0..<n]) = mset (map (f(a := y, b := x)) [0..<n])"
proof -
  let ?g = "f(a := x, b := y)"
  have "f(a := y, b := x) = ?g(a := ?g b, b := ?g a)"
    using assms(3) by (auto simp: fun_eq_iff)
  then show ?thesis
    using mset_map_swap [OF assms(1,2), of ?g] by simp
qed

lemma below_size_less: "below_size v i n \<Longrightarrow> i < n"
  by (cases v) (auto simp: below_size_def to_int_def split: if_splits)

lemma pick_smallest_range:
  "pick_smallest v h i \<noteq> i \<Longrightarrow> i < pick_smallest v h i \<and> pick_smallest v h i < hsize h"
  by (auto simp: pick_smallest_def Let_def split: if_splits dest: below_size_less)

lemma minHeapify_keeps:
  "hsize (minHeapify v h i) = hsize h \<and> mset (contents (minHeapify v h i)) = mset (contents h)"
proof (induction v h i rule: minHeapify.induct)
  case (1 v h i)
  show ?case
  proof (cases "pick_smallest v h i = i")
    case True
    then show ?thesis
      by (subst (1 2) minHeapify.simps) simp
  next
    case False
    let ?s = "pick_smallest v h i"
    let ?h = "h\<lparr>array := swapMinHeapNode (array h) ?s i\<rparr>"
    from pick_smallest_range [OF False] have r: "i < hsize h" "?s < hsize h"
      by auto
    have c: "mset (contents ?h) = mset (contents h)"
      using mset_map_swap [OF r(2) r(1), of "array h"]
      by (simp add: contents_def swapMinHeapNode_def)
    have "minHeapify v h i = minHeapify v ?h ?s"
      using False by (subst minHeapify.simps) (simp add: Let_def)
    then show ?thesis
      using "1.IH" [OF refl False] c by simp
  qed
qed

lemma extractMin_keeps:
  assumes "0 < hsize h" "hsize h \<le> MAX_CHAR v"
  shows "\<exists>h'. extractMin v h = Inr (array h 0, h') \<and> hsize h' = hsize h - 1 \<and>
           mset (contents h') + {#array h 0#} = mset (contents h)"
proof -
  let ?n = "hsize h"
  let ?h2 = "h\<lparr>array := (array h)(0 := array h (?n - 1)), hsize := ?n - 1\<rparr>"
  have d: "u32_dec ?n = ?n - 1"
    using assms by (simp add: u32_dec_def)
  have e: "extractMin v h = Inr (array h 0, minHeapify v ?h2 0)"
    using assms by (simp add: extractMin_def Let_def d)
  have "mset (contents ?h2) + {#array h 0#} = mset (contents h)"
  proof (cases "?n - 1")
    case 0
    with assms have "?n = Suc 0" by simp
    then show ?thesis by (simp add: contents_def)
  next
    case (Suc j)
    with assms have n: "?n = Suc (Suc j)" by simp
    have m: "map ((array h)(0 := array h (Suc j))) [Suc 0..<Suc j] = map (array h) [Suc 0..<Suc j]"
      by (rule map_cong) auto
    have c2: "contents ?h2 = array h (Suc j) # map (array h) [Suc 0..<Suc j]"
      unfolding contents_def using m by (simp add: n upt_conv_Cons del: upt_Suc)
    have c: "contents h = array h 0 # map (array h) [Suc 0..<Suc j] @ [array h (Suc j)]"
      unfolding contents_def by (simp add: n upt_conv_Cons [of 0] del: upt_Suc) simp
    show ?thesis
      unfolding c2 c by simp
  qed
  then show ?thesis
    using e by (simp add: minHeapify_keeps)
qed

lemma sift_up_keeps:
  "i < m \<Longrightarrow>
   snd (sift_up node arr i) < m \<and>
   mset (map ((fst (sift_up node arr i))(snd (sift_up node arr i) := node)) [0..<m])
     = mset (map (arr(i := node)) [0..<m])"
proof (induction node arr i rule: sift_up.induct)
  case (1 node arr i)
  let ?p = "(i - 1) div 2"
  show ?case
  proof (cases "i \<noteq> 0 \<and> freq_of node < freq_of (arr ?p)")
    case False
    then show ?thesis
      using "1.prems" by (subst (1 2 3) sift_up.simps) auto
  next
    case True
    then have p: "?p < i" "?p < m" "?p \<noteq> i"
      using "1.prems" by auto
    let ?arr = "arr(i := arr ?p)"
    have e: "sift_up node arr i = sift_up node ?arr ?p"
      using True by (subst sift_up.simps) simp
    have X: "mset (map (?arr(?p := node)) [0..<m]) = mset (map (arr(i := node)) [0..<m])"
    proof -
      have "?arr(?p := node) = arr(i := arr ?p, ?p := node)" by simp
      moreover have "arr(i := node) = arr(i := node, ?p := arr ?p)"
        using p(3) by (auto simp: fun_eq_iff)
      ultimately show ?thesis
        using mset_map_exchange [OF "1.prems" p(2), of arr "arr ?p" node] p(3)
        by (simp del: mset_map mset_upt)
    qed
    have IH: "snd (sift_up node ?arr ?p) < m"
      "mset (map ((fst (sift_up node ?arr ?p))(snd (sift_up node ?arr ?p) := node)) [0..<m])
         = mset (map (?arr(?p := node)) [0..<m])"
      using "1.IH" [OF True p(2)] by blast+
    show ?thesis
      unfolding e by (rule conjI) (rule IH(1), rule trans [OF IH(2) X])
  qed
qed

lemma insertMinHeap_keeps:
  assumes "hsize h < 2 ^ 31"
  shows "hsize (insertMinHeap h node) = hsize h + 1"
    and "mset (contents (insertMinHeap h node)) = mset (contents h) + {#node#}"
proof -
  let ?n = "hsize h"
  have i: "u32_inc ?n = Suc ?n" "u32_dec (Suc ?n) = ?n"
    using assms by (simp_all add: u32_inc_def u32_dec_def)
  let ?r = "sift_up node (array h) ?n"
  have e: "insertMinHeap h node = h\<lparr>hsize := ?n + 1, array := (fst ?r)(snd ?r := node)\<rparr>"
    by (simp add: insertMinHeap_def Let_def i case_prod_beta)
  show "hsize (insertMinHeap h node) = hsize h + 1"
    by (simp add: e)
  have "mset (map ((fst ?r)(snd ?r := node)) [0..<?n + 1])
          = mset (map ((array h)(?n := node)) [0..<?n + 1])"
    using sift_up_keeps [of ?n "?n + 1" node "array h"] by simp
  moreover have "map ((array h)(?n := node)) [0..<?n] = map (array h) [0..<?n]"
    by (rule map_cong) auto
  ultimately show "mset (contents (insertMinHeap h node)) = mset (contents h) + {#node#}"
    by (simp add: e contents_def del: mset_map mset_upt)
qed

lemma heapify_downto_0_keeps:
  "hsize (heapify_downto_0 v h i) = hsize h \<and>
   mset (contents (heapify_downto_0 v h i)) = mset (contents h)"
proof (induction v h i rule: heapify_downto_0.induct)
  case (1 v h i)
  show ?case
  proof (cases "0 \<le> i")
    case True
    then have "heapify_downto_0 v h i = heapify_downto_0 v (minHeapify v h (nat i)) (i - 1)"
      by (subst heapify_downto_0.simps) simp
    then show ?thesis
      using "1.IH" [OF True] minHeapify_keeps [of v h "nat i"] by simp
  next
    case False
    then show ?thesis
      by (subst (1 2) heapify_downto_0.simps) simp
  qed
qed

lemma buildMinHeap_keeps:
  "hsize (buildMinHeap v h) = hsize h \<and> mset (contents (buildMinHeap v h)) = mset (contents h)"
  by (simp add: buildMinHeap_def Let_def heapify_downto_0_keeps)

lemma fill_nodes_keeps:
  "ni + length ps \<le> MAX_CHAR v \<Longrightarrow>
   \<exists>h'. fill_nodes v data freq ps (h, ni) = Inr (h', ni + length ps) \<and> hsize h' = hsize h \<and>
     (\<forall>k. array h' k = (if k \<in> set ps then Node (data ! k) (word_of_int (freq ! k)) None None
                         else array h k))"
proof (induction ps arbitrary: h ni)
  case Nil
  then show ?case by simp
next
  case (Cons i ps)
  let ?node = "Node (data ! i) (word_of_int (freq ! i)) None None"
  let ?h = "h\<lparr>array := (array h)(i := ?node)\<rparr>"
  from Cons.prems have n: "newNode v ni (data ! i) (word_of_int (freq ! i)) = Inr (?node, ni + 1)"
    by (simp add: newNode_def)
  from Cons.prems have "(ni + 1) + length ps \<le> MAX_CHAR v" by simp
  from Cons.IH [OF this, of ?h] obtain h' where h':
    "fill_nodes v data freq ps (?h, ni + 1) = Inr (h', ni + 1 + length ps)" "hsize h' = hsize ?h"
    "\<forall>k. array h' k = (if k \<in> set ps then Node (data ! k) (word_of_int (freq ! k)) None None
                         else array ?h k)"
    by blast
  have "fill_nodes v data freq (i # ps) (h, ni) = Inr (h', ni + length (i # ps))"
    using n h'(1) by simp
  moreover have "hsize h' = hsize h"
    using h'(2) by simp
  moreover have "\<forall>k. array h' k = (if k \<in> set (i # ps) then Node (data ! k) (word_of_int (freq ! k)) None None
                         else array h k)"
    using h'(3) by simp
  ultimately show ?case by blast
qed

lemma createAndBuildMinHeap_keeps:
  assumes "ni + sz \<le> MAX_CHAR v"
  shows "\<exists>h. createAndBuildMinHeap v mem ni data freq sz = Inr (h, ni + sz) \<and> hsize h = sz \<and>
           mset (contents h)
             = mset (map (\<lambda>i. Node (data ! i) (word_of_int (freq ! i)) None None) [0..<sz])"
proof -
  let ?g = "\<lambda>i. Node (data ! i) (word_of_int (freq ! i)) None None"
  from fill_nodes_keeps [of ni "[0..<sz]" v data freq "createMinHeap mem sz"] assms
  obtain h1 where h1:
    "fill_nodes v data freq [0..<sz] (createMinHeap mem sz, ni) = Inr (h1, ni + sz)"
    "\<forall>k. array h1 k = (if k \<in> set [0..<sz] then ?g k else array (createMinHeap mem sz) k)"
    by auto
  have "map (array h1) [0..<sz] = map ?g [0..<sz]"
    by (rule map_cong) (simp_all add: h1(2))
  then have c: "contents (h1\<lparr>hsize := sz\<rparr>) = map ?g [0..<sz]"
    by (simp add: contents_def)
  have "createAndBuildMinHeap v mem ni data freq sz = Inr (buildMinHeap v (h1\<lparr>hsize := sz\<rparr>), ni + sz)"
    by (simp add: createAndBuildMinHeap_def h1(1))
  then show ?thesis
    using c by (simp add: buildMinHeap_keeps del: mset_map mset_upt)
qed

lemma total_nonneg: "0 \<le> total M"
  unfolding total_def by (induction M) simp_all

lemma total_union: "total (M + N) = total M + total N"
  by (simp add: total_def)

lemma weight_is_total:
  "weights_add_up n \<Longrightarrow> weight n = total (mset (leaves n))"
proof (induction n)
  case (Node d f l r)
  show ?case
  proof (cases l)
    case None
    with Node.prems show ?thesis by (simp add: weight_def total_def)
  next
    case (Some a)
    with Node.prems obtain b where b: "r = Some b" by (cases r) auto
    from Node.prems Some b have w: "uint f = weight a + weight b" "weights_add_up a" "weights_add_up b"
      by simp_all
    have "weight a = total (mset (leaves a))" "weight b = total (mset (leaves b))"
      using Node.IH(1) [of a] Node.IH(2) [of b] Some b w by simp_all
    then show ?thesis
      using w(1) Some b by (simp add: weight_def total_union)
  qed
qed

lemma merge_two_keeps:
  assumes "2 \<le> hsize h" "hsize h \<le> MAX_CHAR v" "ni < MAX_CHAR v"
  shows "\<exists>h'. merge_two v (h, ni) = Inr (h', ni + 1) \<and> hsize h' = hsize h - 1 \<and>
           forest_leaves h' = forest_leaves h \<and>
           (list_all weights_add_up (contents h) \<and> total (forest_leaves h) < 2 ^ 32
              \<longrightarrow> list_all weights_add_up (contents h'))"
proof -
  have a0: "0 < hsize h"
    using assms(1) by simp
  from extractMin_keeps [OF a0 assms(2)] obtain h1 where h1:
    "extractMin v h = Inr (array h 0, h1)" "hsize h1 = hsize h - 1"
    "mset (contents h1) + {#array h 0#} = mset (contents h)"
    by blast
  have a1: "0 < hsize h1" "hsize h1 \<le> MAX_CHAR v"
    using assms h1(2) by simp_all
  from extractMin_keeps [OF a1] obtain h2 where h2:
    "extractMin v h1 = Inr (array h1 0, h2)" "hsize h2 = hsize h1 - 1"
    "mset (contents h2) + {#array h1 0#} = mset (contents h1)"
    by blast
  let ?l = "array h 0" and ?r = "array h1 0"
  let ?top = "Node (CHR ''$'') (freq_of ?l + freq_of ?r) (Some ?l) (Some ?r)"
  let ?h' = "insertMinHeap h2 ?top"
  have m: "merge_two v (h, ni) = Inr (?h', ni + 1)"
    using assms(3) by (simp add: merge_two_def h1(1) h2(1) newNode_def)
  have "MAX_CHAR v \<le> 256"
    by (cases v) (simp_all add: MAX_CHAR_def)
  then have s2: "hsize h2 < 2 ^ 31"
    using h2(2) h1(2) assms(2) by simp
  have hs: "hsize ?h' = hsize h - 1"
    using insertMinHeap_keeps(1) [OF s2] h2(2) h1(2) assms(1) by simp
  have c: "mset (contents ?h') = mset (contents h2) + {#?top#}"
    using insertMinHeap_keeps(2) [OF s2] by simp
  have d: "mset (contents h) = mset (contents h2) + {#?r#} + {#?l#}"
    using h1(3) h2(3) by simp
  have fl: "forest_leaves ?h' = forest_leaves h"
    unfolding forest_leaves_def c d by simp
  have w: "list_all weights_add_up (contents ?h')"
    if a: "list_all weights_add_up (contents h)" and t: "total (forest_leaves h) < 2 ^ 32"
  proof -
    from a have all: "\<forall>n\<in>#mset (contents h). weights_add_up n"
      by (simp add: list_all_iff)
    then have lr: "weights_add_up ?l" "weights_add_up ?r"
      and rest: "\<forall>n\<in>#mset (contents h2). weights_add_up n"
      unfolding d by auto
    have "forest_leaves h = forest_leaves h2 + mset (leaves ?r) + mset (leaves ?l)"
      unfolding forest_leaves_def d by simp
    then have "total (forest_leaves h)
                 = total (forest_leaves h2) + total (mset (leaves ?r)) + total (mset (leaves ?l))"
      by (simp add: total_union)
    then have "weight ?l + weight ?r \<le> total (forest_leaves h)"
      using total_nonneg [of "forest_leaves h2"] weight_is_total [OF lr(1)] weight_is_total [OF lr(2)]
      by simp
    then have "uint (freq_of ?l) + uint (freq_of ?r) < 2 ^ LENGTH(32)"
      using t by (simp add: weight_def)
    then have "uint (freq_of ?l + freq_of ?r) = weight ?l + weight ?r"
      unfolding weight_def by (simp only: uint_add_lem)
    then have "weights_add_up ?top"
      using lr by simp
    then have "\<forall>n\<in>#mset (contents ?h'). weights_add_up n"
      unfolding c using rest by auto
    then show ?thesis
      by (simp add: list_all_iff)
  qed
  show ?thesis
    using m hs fl w by blast
qed

declare merge_loop.simps [simp del]

lemma merge_loop_ends:
  assumes "1 \<le> hsize h" "ni + hsize h - 1 \<le> MAX_CHAR v" "hsize h \<le> MAX_CHAR v"
  shows "\<exists>h'. merge_loop v (h, ni) = Inr (h', ni + hsize h - 1) \<and> hsize h' = 1 \<and>
           forest_leaves h' = forest_leaves h \<and>
           (list_all weights_add_up (contents h) \<and> total (forest_leaves h) < 2 ^ 32
              \<longrightarrow> list_all weights_add_up (contents h'))"
  using assms
proof (induction "hsize h" arbitrary: h ni rule: less_induct)
  case less
  show ?case
  proof (cases "hsize h = 1")
    case True
    then have "merge_loop v (h, ni) = Inr (h, ni)"
      by (subst merge_loop.simps) (cases v; simp add: more_to_merge_def)
    then show ?thesis using True by simp
  next
    case False
    with less.prems have n: "2 \<le> hsize h" by simp
    then have "more_to_merge v (hsize h)"
      by (cases v; simp add: more_to_merge_def)
    then have e: "merge_loop v (h, ni)
                    = (case merge_two v (h, ni) of Inl e \<Rightarrow> Inl e | Inr st' \<Rightarrow> merge_loop v st')"
      by (subst merge_loop.simps) simp
    have ni: "ni < MAX_CHAR v"
      using n less.prems(2) by simp
    from merge_two_keeps [OF n less.prems(3) ni] obtain h1 where h1:
      "merge_two v (h, ni) = Inr (h1, ni + 1)" "hsize h1 = hsize h - 1"
      "forest_leaves h1 = forest_leaves h"
      "list_all weights_add_up (contents h) \<and> total (forest_leaves h) < 2 ^ 32
         \<longrightarrow> list_all weights_add_up (contents h1)"
      by blast
    have p: "hsize h1 < hsize h" "1 \<le> hsize h1" "(ni + 1) + hsize h1 - 1 \<le> MAX_CHAR v"
      "hsize h1 \<le> MAX_CHAR v"
      using h1(2) n less.prems(2,3) by simp_all
    from less.hyps [OF p] obtain h' where h':
      "merge_loop v (h1, ni + 1) = Inr (h', (ni + 1) + hsize h1 - 1)" "hsize h' = 1"
      "forest_leaves h' = forest_leaves h1"
      "list_all weights_add_up (contents h1) \<and> total (forest_leaves h1) < 2 ^ 32
         \<longrightarrow> list_all weights_add_up (contents h')"
      by blast
    have "(ni + 1) + hsize h1 - 1 = ni + hsize h - 1"
      using h1(2) n by simp
    then have "merge_loop v (h, ni) = Inr (h', ni + hsize h - 1)"
      using e h1(1) h'(1) by simp
    then show ?thesis
      using h'(2,3,4) h1(3,4) by auto
  qed
qed

lemma forest_of_new_nodes:
  "(\<Sum>n\<in>#mset (map (\<lambda>i. Node (d i) (w i) None None) xs). mset (leaves n)) = mset (map (\<lambda>i. (d i, w i)) xs)"
  by (induction xs) simp_all

lemma buildHuffmanTree_root:
  assumes "1 \<le> sz" "ni + 2 * sz - 1 \<le> MAX_CHAR v"
  shows "\<exists>root. buildHuffmanTree v mem ni data freq sz = Inr (root, ni + 2 * sz - 1) \<and>
           mset (leaves root) = mset (map (\<lambda>i. (data ! i, word_of_int (freq ! i))) [0..<sz]) \<and>
           (total (mset (map (\<lambda>i. (data ! i, word_of_int (freq ! i))) [0..<sz])) < 2 ^ 32
              \<longrightarrow> weights_add_up root)"
proof -
  let ?g = "\<lambda>i. Node (data ! i) (word_of_int (freq ! i)) None None"
  let ?T = "mset (map (\<lambda>i. (data ! i, word_of_int (freq ! i) :: u32)) [0..<sz])"
  have cap: "ni + sz \<le> MAX_CHAR v" "sz \<le> MAX_CHAR v"
    using assms by simp_all
  from createAndBuildMinHeap_keeps [OF cap(1), of mem data freq] obtain h0 where h0:
    "createAndBuildMinHeap v mem ni data freq sz = Inr (h0, ni + sz)" "hsize h0 = sz"
    "mset (contents h0) = mset (map ?g [0..<sz])"
    by blast
  have f0: "forest_leaves h0 = ?T"
    unfolding forest_leaves_def h0(3)
    using forest_of_new_nodes [of "\<lambda>i. data ! i" "\<lambda>i. word_of_int (freq ! i)" "[0..<sz]"]
    by (simp del: mset_map mset_upt)
  have "\<forall>n\<in>#mset (contents h0). weights_add_up n"
    unfolding h0(3) by auto
  then have w0: "list_all weights_add_up (contents h0)"
    by (simp add: list_all_iff)
  have "(ni + sz) + hsize h0 - 1 \<le> MAX_CHAR v"
    using assms h0(2) by simp
  from merge_loop_ends [of h0 "ni + sz" v, OF _ this] assms(1) cap(2) h0(2) obtain h' where h':
    "merge_loop v (h0, ni + sz) = Inr (h', (ni + sz) + hsize h0 - 1)" "hsize h' = 1"
    "forest_leaves h' = forest_leaves h0"
    "list_all weights_add_up (contents h0) \<and> total (forest_leaves h0) < 2 ^ 32
       \<longrightarrow> list_all weights_add_up (contents h')"
    by auto
  have idx: "(ni + sz) + hsize h0 - 1 = ni + 2 * sz - 1"
    unfolding h0(2) by arith
  have one: "contents h' = [array h' 0]"
    using h'(2) by (simp add: contents_def)
  have "MAX_CHAR v \<noteq> 0"
    by (cases v) (simp_all add: MAX_CHAR_def)
  then have "1 \<le> MAX_CHAR v" by simp
  from extractMin_keeps [of h' v] h'(2) this obtain h'' where
    x: "extractMin v h' = Inr (array h' 0, h'')"
    by auto
  note loop = h'(1) [unfolded idx]
  have r: "buildHuffmanTree v mem ni data freq sz = Inr (array h' 0, ni + 2 * sz - 1)"
    by (simp add: buildHuffmanTree_def h0(1) loop x)
  have l: "mset (leaves (array h' 0)) = ?T"
    using h'(3) f0 by (simp add: forest_leaves_def one)
  have "weights_add_up (array h' 0)" if "total ?T < 2 ^ 32"
    using h'(4) w0 that f0 one by simp
  then show ?thesis
    using r l by blast
qed

lemma table_as_zip:
  "sz \<le> length data \<Longrightarrow> sz \<le> length freq \<Longrightarrow>
   map (\<lambda>i. (data ! i, (word_of_int (freq ! i) :: u32))) [0..<sz]
     = zip (take sz data) (map word_of_int (take sz freq))"
  by (rule nth_equalityI) simp_all

















subsection \<open>Counting and packing\<close>

lemma fold_bump_upt:
  "a \<le> b \<Longrightarrow> fold (bump data) [a..<b] (fold (bump data) [0..<a] freq) = fold (bump data) [0..<b] freq"
proof -
  assume "a \<le> b"
  then have "[0..<b] = [0..<a] @ [a..<b]"
    using upt_add_eq_append [of 0 a "b - a"] by simp
  then show ?thesis
    by simp
qed

lemma chunks_from_inv:
  assumes "1 \<le> chunkSize"
  shows "chunks_from data (fold (bump data) [0..<min start sz] freq) sz chunkSize start
           = Some (fold (bump data) [0..<sz] freq)"
proof (induction "sz - start" arbitrary: start rule: less_induct)
  case less
  show ?case
  proof (cases "start < sz")
    case False
    then show ?thesis
      by (subst chunks_from.simps) (simp add: min_def)
  next
    case True
    define e where "e = (if start + chunkSize < sz then start + chunkSize else sz)"
    have e: "e = min (start + chunkSize) sz" "start \<le> e"
      using True by (auto simp: e_def min_def)
    have m: "min start sz = start"
      using True by simp
    have step: "fold (bump data) [start..<e] (fold (bump data) [0..<start] freq)
                  = fold (bump data) [0..<min (start + chunkSize) sz] freq"
      using fold_bump_upt [OF e(2)] e(1) by simp
    have "sz - (start + chunkSize) < sz - start"
      using True assms by arith
    from less [OF this] have
      "chunks_from data (fold (bump data) [0..<min (start + chunkSize) sz] freq) sz chunkSize
         (start + chunkSize) = Some (fold (bump data) [0..<sz] freq)" .
    then show ?thesis
      using True step
      by (subst chunks_from.simps) (simp add: m e_def Let_def)
  qed
qed

lemma compressInput_vlad_until_NUL:
  "NUL \<notin> set xs \<Longrightarrow>
   compressInput_vlad (xs @ NUL # ys) codes compressed
     = Some (compressed @ concat (map (\<lambda>c. codes (idx c)) xs))"
  by (induction xs arbitrary: compressed) auto














text \<open>
  C5. For every input of \<open>sz\<close> symbols and every chunk size of at least 1, counting in
  windows of \<open>chunkSize\<close> positions ends and yields the table that the single pass yields,
  from any starting table.
\<close>

theorem chunked_counting_refines_single_pass:
  "1 \<le> chunkSize \<Longrightarrow> sz \<le> length data \<Longrightarrow>
   calculateFrequencyInChunks data freq sz chunkSize = Some (calculateFrequency data freq sz)"
  using chunks_from_inv [of chunkSize data 0 sz freq]
  by (simp add: calculateFrequencyInChunks_def calculateFrequency_def)

theorem chunked_counting_refines_single_pass_witness:
  "(1::nat) \<le> 2 \<and> (5::nat) \<le> length ''abcab'' \<and>
   calculateFrequencyInChunks ''abcab'' (\<lambda>_. 0) 5 2 = Some (calculateFrequency ''abcab'' (\<lambda>_. 0) 5)"
  using chunked_counting_refines_single_pass [of 2 5 "''abcab''" "\<lambda>_. 0"] by simp







text \<open>
  C10 (as stated, refuted). huffman\_vlad.c, \<open>HuffmanCodes\<close> on two arrays of declared
  length 5 that agree up to and including the NUL at position 2, \<open>ab\0bb\<close> and \<open>ab\0aa\<close>:
  the streams are \<open>011\<close> and \<open>101\<close> and the bytes 3 and 5. The bytes behind the NUL are
  not encoded, but the frequency pass counts them and they change the codes of \<open>a\<close> and
  \<open>b\<close>.
\<close>

theorem bytes_after_NUL_counterexample:
  "HuffmanCodes_vlad blank 0 (''ab'' @ NUL # ''bb'') 5 = Some (''011'', [3]) \<and>
   HuffmanCodes_vlad blank 0 (''ab'' @ NUL # ''aa'') 5 = Some (''101'', [5])"
  by code_simp

text \<open>
  C10 (amended). In huffman\_vlad.c the packer ends at the first NUL of its input and not
  at the declared length: for a given code table the result is the concatenation of the
  rows of the symbols before that NUL, and is the same whatever follows the NUL. The
  bytes after the NUL reach the output of \<open>HuffmanCodes\<close> only through the frequency table:
  two arrays that agree up to the first NUL and have the same counts over the declared
  length give the same result.
\<close>

theorem compressInput_vlad_ends_at_first_NUL:
  "NUL \<notin> set xs \<Longrightarrow>
   compressInput_vlad (xs @ NUL # ys) codes compressed
     = Some (compressed @ concat (map (\<lambda>c. codes (idx c)) xs)) \<and>
   compressInput_vlad (xs @ NUL # ys) codes compressed
     = compressInput_vlad (xs @ [NUL]) codes compressed \<and>
   (fold (bump (xs @ NUL # ys)) [0..<sz] (\<lambda>_. 0) = fold (bump (xs @ NUL # zs)) [0..<sz] (\<lambda>_. 0) \<longrightarrow>
      HuffmanCodes_vlad mem nodeIndex (xs @ NUL # ys) sz
        = HuffmanCodes_vlad mem nodeIndex (xs @ NUL # zs) sz)"
proof (intro conjI impI)
  assume n: "NUL \<notin> set xs"
  show "compressInput_vlad (xs @ NUL # ys) codes compressed
          = Some (compressed @ concat (map (\<lambda>c. codes (idx c)) xs))"
    by (simp add: compressInput_vlad_until_NUL [OF n])
  show "compressInput_vlad (xs @ NUL # ys) codes compressed
          = compressInput_vlad (xs @ [NUL]) codes compressed"
    by (simp add: compressInput_vlad_until_NUL [OF n])
  assume f: "fold (bump (xs @ NUL # ys)) [0..<sz] (\<lambda>_. 0)
               = fold (bump (xs @ NUL # zs)) [0..<sz] (\<lambda>_. 0)"
  have c: "compressInput_vlad (xs @ NUL # ys) table [] = compressInput_vlad (xs @ NUL # zs) table []"
    for table
    by (simp add: compressInput_vlad_until_NUL [OF n])
  show "HuffmanCodes_vlad mem nodeIndex (xs @ NUL # ys) sz
          = HuffmanCodes_vlad mem nodeIndex (xs @ NUL # zs) sz"
    unfolding HuffmanCodes_vlad_def f c ..
qed

theorem compressInput_vlad_ends_at_first_NUL_witness:
  "NUL \<notin> set ''ab'' \<and>
   compressInput_vlad (''ab'' @ NUL # ''ba'')
       ((\<lambda>_. [])(idx (CHR ''a'') := ''0'', idx (CHR ''b'') := ''1'')) [] = Some ''01'' \<and>
   fold (bump (''ab'' @ NUL # ''ba'')) [0..<5] (\<lambda>_. 0)
     = fold (bump (''ab'' @ NUL # ''ab'')) [0..<5] (\<lambda>_. 0) \<and>
   HuffmanCodes_vlad blank 0 (''ab'' @ NUL # ''ba'') 5 = HuffmanCodes_vlad blank 0 (''ab'' @ NUL # ''ab'') 5"
proof -
  have n: "NUL \<notin> set ''ab''"
    by (simp add: NUL_def)
  have u: "[0..<5] = [0, 1, 2, 3, 4]"
    by code_simp
  have f: "fold (bump (''ab'' @ NUL # ''ba'')) [0..<5] (\<lambda>_. 0)
             = fold (bump (''ab'' @ NUL # ''ab'')) [0..<5] (\<lambda>_. 0)"
    unfolding u by (simp add: bump_def fun_eq_iff idx_def NUL_def)
  note t = compressInput_vlad_ends_at_first_NUL
    [OF n, of "''ba''" "(\<lambda>_. [])(idx (CHR ''a'') := ''0'', idx (CHR ''b'') := ''1'')" "[]" 5 "''ab''" blank 0]
  from t have "compressInput_vlad (''ab'' @ NUL # ''ba'')
       ((\<lambda>_. [])(idx (CHR ''a'') := ''0'', idx (CHR ''b'') := ''1'')) [] = Some ''01''"
    by (simp add: idx_def)
  moreover from t f have "HuffmanCodes_vlad blank 0 (''ab'' @ NUL # ''ba'') 5
                            = HuffmanCodes_vlad blank 0 (''ab'' @ NUL # ''ab'') 5"
    by blast
  ultimately show ?thesis
    using n f by blast
qed

subsection \<open>The tree builder\<close>








subsection \<open>One repeated symbol\<close>

text \<open>
  C9 (code evaluated at the failing input). huffman\_vlad.c, \<open>HuffmanCodes\<close> on the array
  \<open>{'a', 'a', 'a'}\<close> with \<open>size = 3\<close>. The table has the single entry \<open>a:3\<close>;
  \<open>buildHuffmanTree\<close> returns that leaf and \<open>generateCodes\<close> gives \<open>a\<close> the empty string, as
  the claim says. \<open>compressInput\<close> is not handed the size and scans for a NUL: the array
  holds none, so the scan leaves the array. With a NUL stored behind the three symbols
  \<open>compressInput\<close> returns the empty stream, and \<open>convertToAscii\<close> then declares
  \<open>char output[0]\<close>. Either way \<open>HuffmanCodes\<close> has no defined result.
\<close>

theorem single_symbol_run_has_no_defined_result:
  "buildHuffmanTree Vlad blank 0 ''a'' [3] 1 = Inr (Node (CHR ''a'') 3 None None, 1) \<and>
   generateCodes_vlad (Node (CHR ''a'') 3 None None) [] (\<lambda>_. []) (idx (CHR ''a'')) = [] \<and>
   compressInput_vlad ''aaa'' (generateCodes_vlad (Node (CHR ''a'') 3 None None) [] (\<lambda>_. [])) [] = None \<and>
   HuffmanCodes_vlad blank 0 ''aaa'' 3 = None \<and>
   compressInput_vlad (''aaa'' @ [NUL]) (generateCodes_vlad (Node (CHR ''a'') 3 None None) [] (\<lambda>_. [])) []
     = Some [] \<and>
   convertToAscii_vlad [] = Inl Zero_length_array \<and>
   HuffmanCodes_vlad blank 0 (''aaa'' @ [NUL]) 3 = None"
  by code_simp

subsection \<open>The recursive extractor is prefix-free\<close>

text \<open>
  \<open>generateCodes\<close> of huffman\_vlad.c stores for every leaf its path; paths of different
  leaves are not prefixes of each other, so for a table of distinct symbols no code is a
  prefix of another.
\<close>

lemma record_paths_Nil: "record_paths code [] codes = codes"
  by (simp add: record_paths_def)

lemma record_paths_append:
  "record_paths code (ps @ qs) codes = record_paths code qs (record_paths code ps codes)"
  by (simp add: record_paths_def)

lemma record_paths_map:
  "record_paths code (map (\<lambda>(s, p). (s, b # p)) ps) codes = record_paths (code @ [b]) ps codes"
  unfolding record_paths_def by (induction ps arbitrary: codes) (auto simp: case_prod_beta)

lemma generateCodes_vlad_paths:
  "generateCodes_vlad t code codes = record_paths code (paths t) codes"
proof (induction t arbitrary: code codes)
  case (Node d f l r)
  have L: "(case l of None \<Rightarrow> cs | Some ln \<Rightarrow> generateCodes_vlad ln (code @ ''0'') cs)
             = record_paths code (map (\<lambda>(s, p). (s, CHR ''0'' # p))
                 (case l of None \<Rightarrow> [] | Some a \<Rightarrow> paths a)) cs" for cs
  proof (cases l)
    case None
    then show ?thesis by (simp add: record_paths_def)
  next
    case (Some a)
    then show ?thesis using Node.IH(1) [of a] by (simp add: record_paths_map)
  qed
  have R: "(case r of None \<Rightarrow> cs | Some rn \<Rightarrow> generateCodes_vlad rn (code @ ''1'') cs)
             = record_paths code (map (\<lambda>(s, p). (s, CHR ''1'' # p))
                 (case r of None \<Rightarrow> [] | Some b \<Rightarrow> paths b)) cs" for cs
  proof (cases r)
    case None
    then show ?thesis by (simp add: record_paths_def)
  next
    case (Some b)
    then show ?thesis using Node.IH(2) [of b] by (simp add: record_paths_map)
  qed
  show ?case
  proof (cases "l = None \<and> r = None")
    case True
    then show ?thesis by (simp add: record_paths_def)
  next
    case False
    then have "generateCodes_vlad (Node d f l r) code codes
                 = (case r of None \<Rightarrow> (case l of None \<Rightarrow> codes
                                         | Some ln \<Rightarrow> generateCodes_vlad ln (code @ ''0'') codes)
                    | Some rn \<Rightarrow> generateCodes_vlad rn (code @ ''1'')
                        (case l of None \<Rightarrow> codes
                         | Some ln \<Rightarrow> generateCodes_vlad ln (code @ ''0'') codes))"
      by (cases l; cases r; simp add: Let_def)
    also have "\<dots> = record_paths code (map (\<lambda>(s, p). (s, CHR ''1'' # p))
                 (case r of None \<Rightarrow> [] | Some b \<Rightarrow> paths b))
                 (record_paths code (map (\<lambda>(s, p). (s, CHR ''0'' # p))
                 (case l of None \<Rightarrow> [] | Some a \<Rightarrow> paths a)) codes)"
      by (simp only: L R)
    also have "\<dots> = record_paths code (paths (Node d f l r)) codes"
      using False by (cases l; cases r; simp add: record_paths_append record_paths_Nil)
    finally show ?thesis .
  qed
qed

lemma paths_distinct: "distinct (map snd (paths t))"
proof (induction t)
  case (Node d f l r)
  let ?L = "case l of None \<Rightarrow> [] | Some a \<Rightarrow> paths a"
  let ?R = "case r of None \<Rightarrow> [] | Some b \<Rightarrow> paths b"
  have dl: "distinct (map snd ?L)"
    using Node.IH(1) by (cases l) simp_all
  have dr: "distinct (map snd ?R)"
    using Node.IH(2) by (cases r) simp_all
  have e: "map snd (paths (Node d f l r))
             = (if l = None \<and> r = None then [[]]
                else map ((#) (CHR ''0'')) (map snd ?L) @ map ((#) (CHR ''1'')) (map snd ?R))"
    by (simp add: case_prod_beta comp_def)
  have i: "distinct (map ((#) c) xs) = distinct xs" for c :: char and xs :: "string list"
    by (simp add: distinct_map)
  have j: "set (map ((#) (CHR ''0'')) xs) \<inter> set (map ((#) (CHR ''1'')) ys) = {}"
    for xs ys :: "string list"
    by auto
  show ?case
    unfolding e using dl dr i j by (simp only: distinct_append distinct.simps list.set split: if_splits) simp
qed

lemma paths_symbols: "map fst (paths t) = map fst (leaves t)"
proof (induction t)
  case (Node d f l r)
  have "map fst (case l of None \<Rightarrow> [] | Some a \<Rightarrow> paths a)
          = map fst (case l of None \<Rightarrow> [] | Some a \<Rightarrow> leaves a)"
    using Node.IH(1) by (cases l) simp_all
  moreover have "map fst (case r of None \<Rightarrow> [] | Some a \<Rightarrow> paths a)
          = map fst (case r of None \<Rightarrow> [] | Some a \<Rightarrow> leaves a)"
    using Node.IH(2) by (cases r) simp_all
  ultimately show ?case
    by (simp add: comp_def case_prod_beta)
qed

lemma paths_prefix_free:
  "(s1, p1) \<in> set (paths t) \<Longrightarrow> (s2, p2) \<in> set (paths t) \<Longrightarrow> prefix p1 p2 \<Longrightarrow> p1 = p2"
proof (induction t arbitrary: p1 p2)
  case (Node d f l r)
  show ?case
  proof (cases "l = None \<and> r = None")
    case True
    then show ?thesis using Node.prems by simp
  next
    case False
    let ?L = "case l of None \<Rightarrow> [] | Some a \<Rightarrow> paths a"
    let ?R = "case r of None \<Rightarrow> [] | Some b \<Rightarrow> paths b"
    from Node.prems(1) False consider
      q1 where "p1 = CHR ''0'' # q1" "(s1, q1) \<in> set ?L" | q1 where "p1 = CHR ''1'' # q1" "(s1, q1) \<in> set ?R"
      by auto
    then show ?thesis
    proof cases
      case 1
      with Node.prems(2,3) False obtain q2 where q2: "p2 = CHR ''0'' # q2" "(s2, q2) \<in> set ?L"
        by auto
      from 1(2) obtain a where a: "l = Some a" by (cases l) auto
      have "q1 = q2"
        using Node.IH(1) [of a q1 q2] a 1 q2 Node.prems(3) by simp
      then show ?thesis using 1 q2 by simp
    next
      case 2
      with Node.prems(2,3) False obtain q2 where q2: "p2 = CHR ''1'' # q2" "(s2, q2) \<in> set ?R"
        by auto
      from 2(2) obtain b where b: "r = Some b" by (cases r) auto
      have "q1 = q2"
        using Node.IH(2) [of b q1 q2] b 2 q2 Node.prems(3) by simp
      then show ?thesis using 2 q2 by simp
    qed
  qed
qed

lemma idx_inj: "idx a = idx b \<Longrightarrow> a = b"
  by (simp add: idx_def)

lemma record_paths_other:
  "s \<notin> fst ` set ps \<Longrightarrow> record_paths code ps codes (idx s) = codes (idx s)"
  unfolding record_paths_def
  by (induction ps arbitrary: codes) (auto simp: case_prod_beta dest: idx_inj)

lemma record_paths_lookup:
  "distinct (map fst ps) \<Longrightarrow> (s, p) \<in> set ps \<Longrightarrow> record_paths code ps codes (idx s) = code @ p"
proof (induction ps arbitrary: codes)
  case Nil
  then show ?case by simp
next
  case (Cons x ps)
  obtain s' p' where x: "x = (s', p')" by (cases x)
  have step: "record_paths code (x # ps) codes = record_paths code ps (codes(idx s' := code @ p'))"
    by (simp add: record_paths_def x)
  show ?case
  proof (cases "(s, p) \<in> set ps")
    case True
    then show ?thesis
      using Cons step by simp
  next
    case False
    with Cons.prems have e: "s' = s" "p' = p" "s \<notin> fst ` set ps"
      using x by (auto simp: image_iff)
    show ?thesis
      unfolding step using record_paths_other [OF e(3)] e(1,2) by simp
  qed
qed

lemma generateCodes_vlad_prefix_free:
  assumes "2 \<le> sz" "nodeIndex + 2 * sz - 1 \<le> MAX_CHAR v"
    and "sz \<le> length data" "sz \<le> length freq"
    and "distinct (take sz data)"
    and "a \<in> set (take sz data)" "b \<in> set (take sz data)" "a \<noteq> b"
  shows "\<exists>root. buildHuffmanTree v mem nodeIndex data freq sz = Inr (root, nodeIndex + 2 * sz - 1) \<and>
           \<not> prefix (generateCodes_vlad root [] (\<lambda>_. []) (idx a))
                     (generateCodes_vlad root [] (\<lambda>_. []) (idx b))"
proof -
  have one: "1 \<le> sz"
    using assms(1) by simp
  from buildHuffmanTree_root [OF one assms(2), of mem data freq] obtain root where r:
    "buildHuffmanTree v mem nodeIndex data freq sz = Inr (root, nodeIndex + 2 * sz - 1)"
    "mset (leaves root) = mset (map (\<lambda>i. (data ! i, word_of_int (freq ! i))) [0..<sz])"
    by blast
  let ?table = "zip (take sz data) (map word_of_int (take sz freq) :: u32 list)"
  have l: "mset (leaves root) = mset ?table"
    using r(2) table_as_zip [OF assms(3,4)] by simp
  have "mset (map fst (leaves root)) = image_mset fst (mset (leaves root))"
    by simp
  also have "\<dots> = image_mset fst (mset ?table)"
    by (simp only: l)
  also have "\<dots> = mset (map fst ?table)"
    by simp
  also have "map fst ?table = take sz data"
    using assms(3,4) by (simp add: map_fst_zip)
  finally have m: "mset (map fst (paths root)) = mset (take sz data)"
    by (simp add: paths_symbols)
  then have d: "distinct (map fst (paths root))"
    using assms(5) by (metis mset_eq_imp_distinct_iff)
  have s: "set (map fst (paths root)) = set (take sz data)"
    using m by (metis mset_eq_setD)
  from assms(6,7) s obtain pa pb where p: "(a, pa) \<in> set (paths root)" "(b, pb) \<in> set (paths root)"
    by (metis (no_types, lifting) image_iff prod.collapse set_map)
  let ?codes = "generateCodes_vlad root [] (\<lambda>_. [])"
  have ca: "?codes (idx a) = pa" and cb: "?codes (idx b) = pb"
    using record_paths_lookup [OF d p(1), of "[]" "\<lambda>_. []"]
      record_paths_lookup [OF d p(2), of "[]" "\<lambda>_. []"]
    by (simp_all add: generateCodes_vlad_paths)
  have "inj_on snd (set (paths root))"
    using paths_distinct [of root] by (simp add: distinct_map)
  then have "pa \<noteq> pb"
    using inj_onD [of snd "set (paths root)" "(a, pa)" "(b, pb)"] p assms(8) by auto
  then have "\<not> prefix pa pb"
    using paths_prefix_free [OF p] by blast
  then show ?thesis
    using r(1) ca cb by auto
qed

subsection \<open>Runs that show defects\<close>

text \<open>
  C4 (code evaluated at the failing input). huffman.c, table \<open>a:2, b:1, c:1\<close>: after the
  first merge the queue holds the leaf \<open>a\<close> and the new internal node \<open>$\<close>, both of
  weight 2; \<open>insertMinHeap\<close> compared weights only and left \<open>$\<close> below \<open>a\<close>, so
  \<open>extractMin\<close> returns \<open>a\<close> although \<open>'$' < 'a'\<close>.
\<close>

theorem insertMinHeap_ignores_tie_break:
  "(case createAndBuildMinHeap Huffman blank 0 ''abc'' [2, 1, 1] 3 of
      Inl _ \<Rightarrow> False
    | Inr st \<Rightarrow>
        (case merge_two Huffman st of
           Inl _ \<Rightarrow> False
         | Inr (h, _) \<Rightarrow>
             contents h =
               [Node (CHR ''a'') 2 None None,
                Node (CHR ''$'') 2 (Some (Node (CHR ''b'') 1 None None)) (Some (Node (CHR ''c'') 1 None None))] \<and>
             (case extractMin Huffman h of
                Inl _ \<Rightarrow> False
              | Inr (first, _) \<Rightarrow> first = Node (CHR ''a'') 2 None None) \<and>
             idx (CHR ''$'') < idx (CHR ''a'')))"
  by code_simp

text \<open>
  C3 (code evaluated at the failing input). huffman\_t2\_clock.c, \<open>HuffmanCodes("a", 1)\<close>
  called twice from program start: the first call prints the byte 2, the second the byte
  4. After the first call \<open>compressed\<close> holds \<open>10\<close>; the second call rewrites the first
  bit and appends the code of \<open>EOF_CHAR\<close> behind the old string, giving \<open>100\<close>. \<open>nodeIndex\<close>
  is 3 after the first call and 6 after the second.
\<close>

theorem second_call_output_differs:
  "(case HuffmanCodes_t2 blank program_start ''a'' 1 of
      None \<Rightarrow> False
    | Some (out1, st1) \<Rightarrow>
        (case HuffmanCodes_t2 blank st1 ''a'' 1 of
           None \<Rightarrow> False
         | Some (out2, st2) \<Rightarrow>
             out1 = [2] \<and> out2 = [4] \<and>
             cells (s_compressed st1) 3 = ''10'' @ [NUL] \<and>
             cells (s_compressed st2) 3 = ''100'' \<and>
             s_visited st1 0 \<and>
             s_nodeIndex st1 = 3 \<and> s_nodeIndex st2 = 6))"
  by code_simp

text \<open>
  C2 (code evaluated at the failing input). huffman.c, input \<open>abcd\<close>: the tree has the
  leaves \<open>a, b\<close> under its left child and \<open>c, d\<close> under its right child. \<open>printCodes\<close>
  has set \<open>visited[1]\<close> when the left child turned right and finds it still set at the
  right child, which it therefore pops without visiting \<open>d\<close>. The row of \<open>d\<close> stays
  empty, the printed stream is \<open>000110\<close>, and the code of \<open>d\<close> is a prefix of the code
  of \<open>a\<close>.
\<close>

theorem printCodes_leaves_a_symbol_without_code:
  "(case HuffmanCodes_huffman blank 0 ''abcd'' 4 of
      None \<Rightarrow> False
    | Some (codes, bits) \<Rightarrow>
        map codes (map idx ''abcd'') = [''00'', ''01'', ''10'', []] \<and>
        bits = ''000110'' \<and>
        prefix (codes (idx (CHR ''d''))) (codes (idx (CHR ''a''))))"
  by code_simp

end
